theory Spec2Isabelle
  imports Main "HOL-Library.Word"
begin

unbundle bit_operations_syntax

section \<open>Data model\<close>

text \<open>
  The program works on \<^verbatim>\<open>uint8_t\<close> and \<^verbatim>\<open>uint32_t\<close> values: machine words whose
  arithmetic wraps around and whose right shift is logical.
\<close>

type_synonym u8 = "8 word"
type_synonym u32 = "32 word"

text \<open>
  C has no checked array access: an index outside the global table, or a read past the
  end of the caller's buffer, is undefined behaviour. The embedding makes each such access
  a branch that returns an error value, so that "the access is in bounds" is something to
  be proved of the code and not something assumed of it.
\<close>

datatype error =
    TableIndexOutOfBounds nat
  | BufferOverread nat

text \<open>
  \<^verbatim>\<open>uint32_t crc32_table[256];\<close> -- a global array, zero-initialised at program start.
  The table is a list; every theorem that depends on its size says so.
\<close>

definition crc32_table :: "u32 list" where
  "crc32_table = replicate 256 0"

section \<open>Table builder\<close>

text \<open>
  The body of the inner loop of \<^verbatim>\<open>init_crc32_table\<close>:
  \<^verbatim>\<open>crc = (crc >> 1) ^ (0xEDB88320 & -(crc & 1));\<close>
  All operands are unsigned 32-bit: the negation is the two's complement one.
\<close>

definition crc32_shift :: "u32 \<Rightarrow> u32" where
  "crc32_shift crc = drop_bit 1 crc XOR (0xEDB88320 AND (- (crc AND 1)))"

text \<open>\<^verbatim>\<open>for (int j = 0; j < 8; j++) { crc = ...; }\<close>\<close>

function init_inner :: "nat \<Rightarrow> u32 \<Rightarrow> u32" where
  "init_inner j crc = (if j < 8 then init_inner (Suc j) (crc32_shift crc) else crc)"
  by pat_completeness auto
termination
  by (relation "measure (\<lambda>(j, crc). 8 - j)") auto

text \<open>
  \<^verbatim>\<open>for (int i = 0; i < 256; i++) { uint32_t crc = i; ...; crc32_table[i] = crc; }\<close>
  The store into the table is guarded by the size of the table.
\<close>

function init_outer :: "nat \<Rightarrow> u32 list \<Rightarrow> error + u32 list" where
  "init_outer i tbl =
     (if i < 256 then
        (if i < length tbl
         then init_outer (Suc i) (tbl[i := init_inner 0 (of_nat i)])
         else Inl (TableIndexOutOfBounds i))
      else Inr tbl)"
  by pat_completeness auto
termination
  by (relation "measure (\<lambda>(i, tbl). 256 - i)") auto

definition init_crc32_table :: "u32 list \<Rightarrow> error + u32 list" where
  "init_crc32_table tbl = init_outer 0 tbl"

section \<open>Checksum computer\<close>

text \<open>
  The body of the loop of \<^verbatim>\<open>calculate_crc32\<close>:
  \<^verbatim>\<open>crc = (crc >> 8) ^ crc32_table[(crc ^ data[i]) & 0xFF];\<close>
  The byte is promoted to the 32-bit type before the exclusive or. The table index is
  computed first and the lookup is guarded by the size of the table.
\<close>

definition crc32_index :: "u32 \<Rightarrow> u8 \<Rightarrow> nat" where
  "crc32_index crc b = unat ((crc XOR ucast b) AND 0xFF)"

definition crc32_update :: "u32 list \<Rightarrow> u32 \<Rightarrow> u8 \<Rightarrow> error + u32" where
  "crc32_update tbl crc b =
     (let idx = crc32_index crc b in
      if idx < length tbl then Inr (drop_bit 8 crc XOR tbl ! idx)
      else Inl (TableIndexOutOfBounds idx))"

text \<open>
  \<^verbatim>\<open>for (size_t i = 0; i < len; i++) { ... data[i] ... }\<close>
  The buffer is the list of the bytes the pointer addresses; \<^verbatim>\<open>len\<close> is passed
  separately, as in the source, and a read at or beyond the end of the buffer is an error.
\<close>

function crc32_loop :: "u32 list \<Rightarrow> u8 list \<Rightarrow> nat \<Rightarrow> nat \<Rightarrow> u32 \<Rightarrow> error + u32" where
  "crc32_loop tbl data len i crc =
     (if i < len then
        (if i < length data then
           (case crc32_update tbl crc (data ! i) of
              Inl e \<Rightarrow> Inl e
            | Inr crc' \<Rightarrow> crc32_loop tbl data len (Suc i) crc')
         else Inl (BufferOverread i))
      else Inr crc)"
  by pat_completeness auto
termination
  by (relation "measure (\<lambda>(tbl, data, len, i, crc). len - i)") auto

definition calculate_crc32 :: "u32 list \<Rightarrow> u8 list \<Rightarrow> nat \<Rightarrow> error + u32" where
  "calculate_crc32 tbl data len =
     (case crc32_loop tbl data len 0 0xFFFFFFFF of
        Inl e \<Rightarrow> Inl e
      | Inr crc \<Rightarrow> Inr (NOT crc))"

section \<open>Hamming code generator\<close>

text \<open>
  \<^verbatim>\<open>uint32_t encoded = 0; return encoded;\<close> -- the argument is never read.
\<close>

definition generate_hamming :: "u32 \<Rightarrow> u32" where
  "generate_hamming data = (let encoded = 0 in encoded)"

section \<open>The algorithms as the specification words them\<close>

text \<open>
  The table builder of the specification: eight times, if the low bit of \<open>crc\<close> is set
  then \<open>crc = (crc >> 1) XOR polynomial\<close>, else \<open>crc = crc >> 1\<close>.
\<close>

definition spec_table_step :: "u32 \<Rightarrow> u32 \<Rightarrow> u32" where
  "spec_table_step poly crc =
     (if bit crc 0 then drop_bit 1 crc XOR poly else drop_bit 1 crc)"

definition spec_table_entry :: "nat \<Rightarrow> u32" where
  "spec_table_entry i = (spec_table_step 0xEDB88320 ^^ 8) (of_nat i)"

text \<open>
  The checksum of the specification: the accumulator starts at \<^verbatim>\<open>0xFFFFFFFF\<close>, each byte
  \<open>b\<close> in order sets it to \<open>(acc >> 8) XOR table[(acc XOR b) & 0xFF]\<close>, and the result is
  its complement.
\<close>

definition spec_accumulate :: "u32 list \<Rightarrow> u32 \<Rightarrow> u8 \<Rightarrow> u32" where
  "spec_accumulate table acc b =
     drop_bit 8 acc XOR table ! unat ((acc XOR ucast b) AND 0xFF)"

definition spec_checksum :: "u32 list \<Rightarrow> u8 list \<Rightarrow> u32" where
  "spec_checksum table data = NOT (foldl (spec_accumulate table) 0xFFFFFFFF data)"

section \<open>The loops, characterised\<close>

declare init_inner.simps [simp del]
declare init_outer.simps [simp del]
declare crc32_loop.simps [simp del]

lemma funpow_8: "(f ^^ 8) x = f (f (f (f (f (f (f (f x)))))))"
  by (simp add: eval_nat_numeral)

lemma crc32_shift_conditional:
  "crc32_shift crc = spec_table_step 0xEDB88320 crc"
  by (simp add: crc32_shift_def spec_table_step_def and_one_eq bit_0
      odd_iff_mod_2_eq_one even_iff_mod_2_eq_zero)

lemma init_inner_funpow:
  "init_inner j crc = (crc32_shift ^^ (8 - j)) crc"
proof (induction j crc rule: init_inner.induct)
  case (1 j crc)
  show ?case
  proof (cases "j < 8")
    case True
    then have "8 - j = Suc (8 - Suc j)" by simp
    with True "1" show ?thesis
      by (subst init_inner.simps) (simp add: funpow_swap1)
  next
    case False
    then show ?thesis by (subst init_inner.simps) simp
  qed
qed

lemma init_inner_spec: "init_inner 0 (of_nat i) = spec_table_entry i"
proof -
  have "crc32_shift = spec_table_step 0xEDB88320"
    by (rule ext) (rule crc32_shift_conditional)
  then show ?thesis by (simp add: init_inner_funpow spec_table_entry_def)
qed

text \<open>
  When the outer loop is at index \<open>i\<close>, the entries below \<open>i\<close> are final and the loop
  goes on to overwrite every entry from \<open>i\<close> on; no store is out of bounds.
\<close>

lemma init_outer_result:
  "i \<le> 256 \<Longrightarrow> length tbl = 256 \<Longrightarrow>
   init_outer i tbl = Inr (take i tbl @ map (\<lambda>k. init_inner 0 (of_nat k)) [i..<256])"
proof (induction i tbl rule: init_outer.induct)
  case (1 i tbl)
  show ?case
  proof (cases "i < 256")
    case True
    let ?v = "init_inner 0 (of_nat i) :: u32"
    from True "1.prems" have lt: "i < length tbl" by simp
    have step: "init_outer i tbl = init_outer (Suc i) (tbl[i := ?v])"
      using True lt by (subst init_outer.simps) simp
    have "init_outer (Suc i) (tbl[i := ?v]) =
        Inr (take (Suc i) (tbl[i := ?v]) @ map (\<lambda>k. init_inner 0 (of_nat k)) [Suc i..<256])"
      using True lt "1.prems" by (intro "1.IH") simp_all
    also have "take (Suc i) (tbl[i := ?v]) = take i tbl @ [?v]"
      using lt by (simp add: take_Suc_conv_app_nth)
    finally show ?thesis
      using True step by (simp add: upt_conv_Cons)
  next
    case False
    with "1.prems" have "i = 256" by simp
    with "1.prems" show ?thesis by (subst init_outer.simps) simp
  qed
qed

lemma init_crc32_table_result:
  "length tbl = 256 \<Longrightarrow>
   init_crc32_table tbl = Inr (map (\<lambda>k. init_inner 0 (of_nat k)) [0..<256])"
  by (simp add: init_crc32_table_def init_outer_result)

lemma crc32_index_bound: "crc32_index crc b < 256"
  unfolding crc32_index_def
  by (rule le_less_trans [OF word_and_le1 [THEN word_le_nat_alt [THEN iffD1]]]) simp

lemma crc32_update_spec:
  "length tbl = 256 \<Longrightarrow> crc32_update tbl crc b = Inr (spec_accumulate tbl crc b)"
  using crc32_index_bound [of crc b]
  by (simp add: crc32_update_def spec_accumulate_def Let_def crc32_index_def)

text \<open>
  From index \<open>i\<close> the loop folds the update over the bytes \<open>i, \<dots>, len - 1\<close> of the buffer.
\<close>

lemma crc32_loop_fold:
  "length tbl = 256 \<Longrightarrow> len \<le> length data \<Longrightarrow>
   crc32_loop tbl data len i crc =
     Inr (foldl (spec_accumulate tbl) crc (drop i (take len data)))"
proof (induction tbl data len i crc rule: crc32_loop.induct)
  case (1 tbl data len i crc)
  show ?case
  proof (cases "i < len")
    case True
    with "1.prems" have lt: "i < length data" by simp
    have upd: "crc32_update tbl crc (data ! i) = Inr (spec_accumulate tbl crc (data ! i))"
      using "1.prems" by (simp add: crc32_update_spec)
    have "drop i (take len data) = data ! i # drop (Suc i) (take len data)"
      using True lt by (simp add: Cons_nth_drop_Suc [symmetric])
    moreover have "crc32_loop tbl data len (Suc i) (spec_accumulate tbl crc (data ! i)) =
        Inr (foldl (spec_accumulate tbl) (spec_accumulate tbl crc (data ! i))
               (drop (Suc i) (take len data)))"
      using True lt upd "1.prems" by (intro "1.IH") simp_all
    ultimately show ?thesis
      using True lt upd by (subst crc32_loop.simps) simp
  next
    case False
    then show ?thesis by (subst crc32_loop.simps) simp
  qed
qed

lemma calculate_crc32_fold:
  "length tbl = 256 \<Longrightarrow> len \<le> length data \<Longrightarrow>
   calculate_crc32 tbl data len = Inr (spec_checksum tbl (take len data))"
  by (simp add: calculate_crc32_def crc32_loop_fold spec_checksum_def)

text \<open>The loop reads the first \<open>len\<close> bytes of the buffer and nothing else of it.\<close>

lemma crc32_loop_prefix:
  "take len d1 = take len d2 \<Longrightarrow>
   crc32_loop tbl d1 len i crc = crc32_loop tbl d2 len i crc"
proof (induction tbl d1 len i crc rule: crc32_loop.induct)
  case (1 tbl d1 len i crc)
  from "1.prems" have "length (take len d1) = length (take len d2)" by simp
  then have len_eq: "min (length d1) len = min (length d2) len" by simp
  show ?case
  proof (cases "i < len")
    case True
    show ?thesis
    proof (cases "i < length d1")
      case lt1: True
      with True len_eq have lt2: "i < length d2" by linarith
      have "take len d1 ! i = take len d2 ! i" using "1.prems" by simp
      with True have byte: "d1 ! i = d2 ! i" by simp
      show ?thesis
      proof (cases "crc32_update tbl crc (d1 ! i)")
        case (Inl e)
        with True lt1 lt2 byte show ?thesis
          by (subst (1 2) crc32_loop.simps) simp
      next
        case (Inr crc')
        with True lt1 "1.prems"
        have "crc32_loop tbl d1 len (Suc i) crc' = crc32_loop tbl d2 len (Suc i) crc'"
          by (intro "1.IH") simp_all
        with True lt1 lt2 byte Inr show ?thesis
          by (subst (1 2) crc32_loop.simps) simp
      qed
    next
      case ge1: False
      with True len_eq have "\<not> i < length d2" by linarith
      with True ge1 show ?thesis
        by (subst (1 2) crc32_loop.simps) simp
    qed
  next
    case False
    then show ?thesis by (subst (1 2) crc32_loop.simps) simp
  qed
qed

section \<open>The table and some checksums, evaluated\<close>

lemma table_entry_0: "init_inner 0 0 = 0"
  by (simp add: init_inner.simps crc32_shift_def)

lemma table_entry_114: "init_inner 0 114 = 0xBE0B1010"
  by (simp add: init_inner.simps crc32_shift_def)

lemma table_entry_158: "init_inner 0 158 = 0x17B7BE43"
  by (simp add: init_inner.simps crc32_shift_def)

lemma table_entry_222: "init_inner 0 222 = 0x616BFFD3"
  by (simp add: init_inner.simps crc32_shift_def)

lemma table_entry_237: "init_inner 0 237 = 0xDEBB9EC5"
  by (simp add: init_inner.simps crc32_shift_def)

lemma table_entry_255: "init_inner 0 255 = 0x2D02EF8D"
  by (simp add: init_inner.simps crc32_shift_def)

text \<open>One update against the table that \<^verbatim>\<open>init_crc32_table\<close> builds.\<close>

lemma built_accumulate:
  assumes "crc32_index acc b = i"
    and "init_inner 0 (of_nat i) = v"
    and "drop_bit 8 acc XOR v = acc'"
  shows "spec_accumulate (map (\<lambda>k. init_inner 0 (of_nat k)) [0..<256]) acc b = acc'"
proof -
  from assms(1) have "i < 256" using crc32_index_bound [of acc b] by simp
  then have "map (\<lambda>k. init_inner 0 (of_nat k) :: u32) [0..<256] ! i = v"
    using assms(2) by simp
  with assms(1, 3) show ?thesis
    by (simp add: spec_accumulate_def crc32_index_def)
qed

lemma zeros_step_1:
  "spec_accumulate (map (\<lambda>k. init_inner 0 (of_nat k)) [0..<256]) 0xFFFFFFFF 0 = 0x2DFD1072"
  by (rule built_accumulate [where i = 255 and v = "0x2D02EF8D"])
    (simp_all add: crc32_index_def table_entry_255)

lemma zeros_step_2:
  "spec_accumulate (map (\<lambda>k. init_inner 0 (of_nat k)) [0..<256]) 0x2DFD1072 0 = 0xBE26ED00"
  by (rule built_accumulate [where i = 114 and v = "0xBE0B1010"])
    (simp_all add: crc32_index_def table_entry_114)

lemma zeros_step_3:
  "spec_accumulate (map (\<lambda>k. init_inner 0 (of_nat k)) [0..<256]) 0xBE26ED00 0 = 0x00BE26ED"
  by (rule built_accumulate [where i = 0 and v = 0])
    (simp_all add: crc32_index_def table_entry_0)

lemma zeros_step_4:
  "spec_accumulate (map (\<lambda>k. init_inner 0 (of_nat k)) [0..<256]) 0x00BE26ED 0 = 0xDEBB20E3"
  by (rule built_accumulate [where i = 237 and v = "0xDEBB9EC5"])
    (simp_all add: crc32_index_def table_entry_237)

lemma ab_step_1:
  "spec_accumulate (map (\<lambda>k. init_inner 0 (of_nat k)) [0..<256]) 0xFFFFFFFF 0x61 = 0x174841BC"
  by (rule built_accumulate [where i = 158 and v = "0x17B7BE43"])
    (simp_all add: crc32_index_def table_entry_158)

lemma ab_step_2:
  "spec_accumulate (map (\<lambda>k. init_inner 0 (of_nat k)) [0..<256]) 0x174841BC 0x62 = 0x617CB792"
  by (rule built_accumulate [where i = 222 and v = "0x616BFFD3"])
    (simp_all add: crc32_index_def table_entry_222)

lemma built_checksum_zeros_1:
  "calculate_crc32 (map (\<lambda>k. init_inner 0 (of_nat k)) [0..<256]) [0] 1 = Inr 0xD202EF8D"
  by (simp add: calculate_crc32_fold spec_checksum_def zeros_step_1)

lemma built_checksum_zeros_2:
  "calculate_crc32 (map (\<lambda>k. init_inner 0 (of_nat k)) [0..<256]) [0, 0] 2 = Inr 0x41D912FF"
  by (simp add: calculate_crc32_fold spec_checksum_def zeros_step_1 zeros_step_2)

lemma built_checksum_zeros_4:
  "calculate_crc32 (map (\<lambda>k. init_inner 0 (of_nat k)) [0..<256]) [0, 0, 0, 0] 4 =
     Inr 0x2144DF1C"
  by (simp add: calculate_crc32_fold spec_checksum_def
      zeros_step_1 zeros_step_2 zeros_step_3 zeros_step_4)

lemma init_crc32_table_start:
  "init_crc32_table crc32_table = Inr (map (\<lambda>k. init_inner 0 (of_nat k)) [0..<256])"
  by (simp add: init_crc32_table_result crc32_table_def)

section \<open>The checksum routine computes the specified fold\<close>

text \<open>
  Claim C1: for a 256-entry table and a buffer holding at least \<open>len\<close> bytes,
  \<^verbatim>\<open>calculate_crc32(data, len)\<close> returns the value the specification describes: start
  from \<^verbatim>\<open>0xFFFFFFFF\<close>, for each of the \<open>len\<close> bytes in order set the accumulator to
  \<open>(acc >> 8) XOR table[(acc XOR b) & 0xFF]\<close>, and return the complement. In particular
  this holds when \<open>len\<close> is the length of the buffer.
\<close>

theorem calculate_crc32_refines_spec:
  assumes "length tbl = 256" and "len \<le> length data"
  shows "calculate_crc32 tbl data len = Inr (spec_checksum tbl (take len data))
    \<and> calculate_crc32 tbl data (length data) = Inr (spec_checksum tbl data)"
  using assms by (simp add: calculate_crc32_fold)

theorem calculate_crc32_refines_spec_witness:
  "length (map (\<lambda>k. init_inner 0 (of_nat k) :: u32) [0..<256]) = 256
   \<and> (1 :: nat) \<le> length [0x61 :: u8]
   \<and> calculate_crc32 (map (\<lambda>k. init_inner 0 (of_nat k)) [0..<256]) [0x61] 1 =
       Inr (spec_checksum (map (\<lambda>k. init_inner 0 (of_nat k)) [0..<256]) [0x61])
   \<and> spec_checksum (map (\<lambda>k. init_inner 0 (of_nat k)) [0..<256]) [0x61] = 0xE8B7BE43"
proof -
  let ?t = "map (\<lambda>k. init_inner 0 (of_nat k) :: u32) [0..<256]"
  have len: "length ?t = 256" by simp
  have buf: "(1 :: nat) \<le> length [0x61 :: u8]" by simp
  have "calculate_crc32 ?t [0x61] 1 = Inr (spec_checksum ?t (take 1 [0x61]))"
    using calculate_crc32_refines_spec [OF len buf] by blast
  moreover have "spec_checksum ?t [0x61] = 0xE8B7BE43"
    by (simp add: spec_checksum_def ab_step_1)
  ultimately show ?thesis by simp
qed

section \<open>The table builder computes the specified entries\<close>

text \<open>
  Claim C2: the branchless update \<open>(crc >> 1) ^ (0xEDB88320 & -(crc & 1))\<close> of the code is
  the conditional update of the specification, and \<^verbatim>\<open>init_crc32_table\<close>, run on a
  256-entry table, stores at every index \<open>i\<close> from 0 to 255 the result of eight
  conditional updates starting from \<open>crc = i\<close>.
\<close>

theorem init_crc32_table_refines_spec:
  assumes "length tbl = 256" and "i < 256"
  shows "crc32_shift crc = spec_table_step 0xEDB88320 crc
    \<and> (\<exists>t. init_crc32_table tbl = Inr t \<and> length t = 256 \<and> t ! i = spec_table_entry i)"
proof -
  let ?t = "map (\<lambda>k. init_inner 0 (of_nat k) :: u32) [0..<256]"
  have "init_crc32_table tbl = Inr ?t"
    using assms(1) by (rule init_crc32_table_result)
  moreover have "length ?t = 256" by simp
  moreover have "?t ! i = spec_table_entry i"
    using assms(2) by (simp add: init_inner_spec)
  ultimately show ?thesis
    using crc32_shift_conditional by blast
qed

theorem init_crc32_table_refines_spec_witness:
  "length crc32_table = 256 \<and> (255 :: nat) < 256
   \<and> crc32_shift 1 = spec_table_step 0xEDB88320 1
   \<and> spec_table_step 0xEDB88320 1 = 0xEDB88320
   \<and> (\<exists>t. init_crc32_table crc32_table = Inr t \<and> length t = 256
          \<and> t ! 255 = spec_table_entry 255)
   \<and> spec_table_entry 255 = 0x2D02EF8D"
proof -
  have len: "length crc32_table = 256" by (simp add: crc32_table_def)
  have idx: "(255 :: nat) < 256" by simp
  have "spec_table_step 0xEDB88320 1 = 0xEDB88320"
    by (simp add: spec_table_step_def)
  moreover have "spec_table_entry 255 = 0x2D02EF8D"
    by (simp add: spec_table_entry_def spec_table_step_def funpow_8)
  ultimately show ?thesis
    using len idx init_crc32_table_refines_spec [OF len idx, of 1] by simp
qed

section \<open>Four zero bytes\<close>

text \<open>
  Claim C3, as stated: the checksum of four zero bytes against the table built by
  \<^verbatim>\<open>init_crc32_table\<close> is \<^verbatim>\<open>0xD202EF8D\<close>. It is not: \<^verbatim>\<open>init_crc32_table\<close> returns
  a table, and the checksum of four zero bytes against it is another value.
\<close>

theorem four_zero_bytes_counterexample:
  "init_crc32_table crc32_table = Inr (projr (init_crc32_table crc32_table))
   \<and> calculate_crc32 (projr (init_crc32_table crc32_table)) [0, 0, 0, 0] 4
       \<noteq> Inr 0xD202EF8D"
  by (simp add: init_crc32_table_start built_checksum_zeros_4)

text \<open>
  Claim C3, amended: the checksum of four zero bytes against the table built by
  \<^verbatim>\<open>init_crc32_table\<close> is \<^verbatim>\<open>0x2144DF1C\<close>.
\<close>

theorem four_zero_bytes_checksum:
  "\<exists>t. init_crc32_table crc32_table = Inr t
       \<and> calculate_crc32 t [0, 0, 0, 0] 4 = Inr 0x2144DF1C"
  using init_crc32_table_start built_checksum_zeros_4 by blast

section \<open>The Hamming code generator is a stub\<close>

text \<open>
  Claim C9: \<^verbatim>\<open>generate_hamming\<close> returns the same fixed value, zero, for every 32-bit
  input: its result does not depend on its argument.
\<close>

theorem generate_hamming_constant:
  "generate_hamming d = 0 \<and> generate_hamming d = generate_hamming d'"
  by (simp add: generate_hamming_def)

section \<open>The empty input\<close>

text \<open>
  Claim C4: with length 0 the checksum is \<^verbatim>\<open>0x00000000\<close>, whatever the table and the
  buffer are, and it is a result, not an error.
\<close>

theorem calculate_crc32_empty:
  "calculate_crc32 tbl data 0 = Inr 0"
  by (simp add: calculate_crc32_def crc32_loop.simps)

section \<open>The first table entry\<close>

text \<open>
  Claim C5: after \<^verbatim>\<open>init_crc32_table\<close> has run on a 256-entry table, whatever it held
  before, the entry at index 0 is 0.
\<close>

theorem init_crc32_table_entry_0:
  assumes "length tbl = 256"
  shows "\<exists>t. init_crc32_table tbl = Inr t \<and> t ! 0 = 0"
proof -
  have "map (\<lambda>k. init_inner 0 (of_nat k) :: u32) [0..<256] ! 0 = 0"
    by (simp add: upt_conv_Cons table_entry_0)
  with init_crc32_table_result [OF assms] show ?thesis by blast
qed

theorem init_crc32_table_entry_0_witness:
  "length (replicate 256 (0xFFFFFFFF :: u32)) = 256
   \<and> (\<exists>t. init_crc32_table (replicate 256 0xFFFFFFFF) = Inr t \<and> t ! 0 = 0)"
proof -
  have len: "length (replicate 256 (0xFFFFFFFF :: u32)) = 256" by simp
  from len init_crc32_table_entry_0 [OF len] show ?thesis by blast
qed

section \<open>No access is out of bounds\<close>

text \<open>
  Claim C6: every table index that \<^verbatim>\<open>calculate_crc32\<close> computes is below 256; on a
  256-entry table \<^verbatim>\<open>init_crc32_table\<close> returns a table (of 256 entries) and not an
  error; and for a buffer that holds at least \<open>len\<close> bytes, of any length including 0,
  \<^verbatim>\<open>calculate_crc32\<close> returns a checksum and not an error.
\<close>

theorem crc32_operations_total:
  assumes "length tbl = 256" and "len \<le> length data"
  shows "crc32_index crc b < 256
    \<and> (\<exists>t. init_crc32_table tbl = Inr t \<and> length t = 256)
    \<and> (\<exists>r. crc32_update tbl crc b = Inr r)
    \<and> (\<exists>r. calculate_crc32 tbl data len = Inr r)"
proof -
  have "\<exists>t. init_crc32_table tbl = Inr t \<and> length t = 256"
    using init_crc32_table_result [OF assms(1)] by simp
  moreover have "\<exists>r. crc32_update tbl crc b = Inr r"
    using crc32_update_spec [OF assms(1)] by blast
  moreover have "\<exists>r. calculate_crc32 tbl data len = Inr r"
    using calculate_crc32_fold [OF assms] by blast
  ultimately show ?thesis
    using crc32_index_bound by blast
qed

theorem crc32_operations_total_witness:
  "length crc32_table = 256 \<and> (2 :: nat) \<le> length [0x61, 0x62, 0x63 :: u8]
   \<and> crc32_index 0xFFFFFFFF 0x61 < 256
   \<and> (\<exists>t. init_crc32_table crc32_table = Inr t \<and> length t = 256)
   \<and> (\<exists>r. crc32_update crc32_table 0xFFFFFFFF 0x61 = Inr r)
   \<and> (\<exists>r. calculate_crc32 crc32_table [0x61, 0x62, 0x63] 2 = Inr r)"
proof -
  have len: "length crc32_table = 256" by (simp add: crc32_table_def)
  have buf: "(2 :: nat) \<le> length [0x61, 0x62, 0x63 :: u8]" by simp
  from len buf crc32_operations_total [OF len buf, of "0xFFFFFFFF" "0x61"]
  show ?thesis by blast
qed

section \<open>The checksum is not additive over concatenation\<close>

text \<open>
  Claim C7: there are byte sequences \<open>d1\<close> and \<open>d2\<close> for which the checksum of
  \<open>d1 @ d2\<close> differs from the exclusive or of the checksums of \<open>d1\<close> and of \<open>d2\<close>
  (against the table built by \<^verbatim>\<open>init_crc32_table\<close>): one zero byte each will do.
\<close>

theorem calculate_crc32_not_xor_homomorphic:
  "\<exists>d1 d2 t c12 c1 c2.
     init_crc32_table crc32_table = Inr t
     \<and> calculate_crc32 t (d1 @ d2) (length (d1 @ d2)) = Inr c12
     \<and> calculate_crc32 t d1 (length d1) = Inr c1
     \<and> calculate_crc32 t d2 (length d2) = Inr c2
     \<and> c12 \<noteq> c1 XOR c2"
proof -
  let ?t = "map (\<lambda>k. init_inner 0 (of_nat k) :: u32) [0..<256]"
  have "calculate_crc32 ?t ([0] @ [0]) (length ([0 :: u8] @ [0])) = Inr 0x41D912FF"
    using built_checksum_zeros_2 by (simp add: numeral_2_eq_2)
  moreover have "calculate_crc32 ?t [0] (length [0 :: u8]) = Inr 0xD202EF8D"
    using built_checksum_zeros_1 by simp
  moreover have "(0x41D912FF :: u32) \<noteq> 0xD202EF8D XOR 0xD202EF8D"
    by simp
  ultimately show ?thesis
    using init_crc32_table_start by blast
qed

section \<open>Determinism\<close>

text \<open>
  Claim C8: \<^verbatim>\<open>init_crc32_table\<close> builds the same 256-entry table whatever the table
  held before, so a second run, on its own output or on any other 256-entry table,
  yields an identical table; and the result of \<^verbatim>\<open>calculate_crc32\<close> is determined by
  the table, the length and the first \<open>len\<close> bytes of the buffer alone, so two calls
  on the same input yield the same result.
\<close>

theorem crc32_deterministic:
  assumes "length t1 = 256" and "length t2 = 256" and "take len d1 = take len d2"
  shows "\<exists>t. init_crc32_table t1 = Inr t \<and> init_crc32_table t2 = Inr t
           \<and> length t = 256 \<and> init_crc32_table t = Inr t
           \<and> calculate_crc32 tbl d1 len = calculate_crc32 tbl d2 len"
proof -
  let ?t = "map (\<lambda>k. init_inner 0 (of_nat k) :: u32) [0..<256]"
  have len: "length ?t = 256" by simp
  have "init_crc32_table t1 = Inr ?t" and "init_crc32_table t2 = Inr ?t"
    using assms(1, 2) by (simp_all add: init_crc32_table_result)
  moreover have "init_crc32_table ?t = Inr ?t"
    using len by (rule init_crc32_table_result)
  moreover have "calculate_crc32 tbl d1 len = calculate_crc32 tbl d2 len"
    using crc32_loop_prefix [OF assms(3)] by (simp add: calculate_crc32_def)
  ultimately show ?thesis using len by blast
qed

theorem crc32_deterministic_witness:
  "length crc32_table = 256 \<and> length (replicate 256 (0xFFFFFFFF :: u32)) = 256
   \<and> take 2 [0x61, 0x62, 0x63 :: u8] = take 2 [0x61, 0x62, 0x7A]
   \<and> (\<exists>t. init_crc32_table crc32_table = Inr t
          \<and> init_crc32_table (replicate 256 0xFFFFFFFF) = Inr t
          \<and> length t = 256 \<and> init_crc32_table t = Inr t
          \<and> calculate_crc32 crc32_table [0x61, 0x62, 0x63] 2 =
              calculate_crc32 crc32_table [0x61, 0x62, 0x7A] 2)"
proof -
  have l1: "length crc32_table = 256" by (simp add: crc32_table_def)
  have l2: "length (replicate 256 (0xFFFFFFFF :: u32)) = 256" by simp
  have pre: "take 2 [0x61, 0x62, 0x63 :: u8] = take 2 [0x61, 0x62, 0x7A]" by simp
  from l1 l2 pre crc32_deterministic [OF l1 l2 pre, of crc32_table]
  show ?thesis by blast
qed

section \<open>Checksums compose incrementally\<close>

text \<open>
  Claim C10: on a 256-entry table, the checksum of \<open>d1 @ d2\<close> is the complement of the
  per-byte update folded over \<open>d2\<close> from the accumulator \<open>NOT c1\<close>, where \<open>c1\<close> is the
  checksum of \<open>d1\<close>; and the loop of the code over \<open>d1 @ d2\<close> from \<^verbatim>\<open>0xFFFFFFFF\<close> ends
  in the accumulator that the loop over \<open>d2\<close> reaches when started from \<open>NOT c1\<close>.
\<close>

theorem calculate_crc32_append:
  assumes "length tbl = 256"
  shows "\<exists>c1. calculate_crc32 tbl d1 (length d1) = Inr c1
    \<and> calculate_crc32 tbl (d1 @ d2) (length (d1 @ d2)) =
        Inr (NOT (foldl (spec_accumulate tbl) (NOT c1) d2))
    \<and> crc32_loop tbl (d1 @ d2) (length (d1 @ d2)) 0 0xFFFFFFFF =
        crc32_loop tbl d2 (length d2) 0 (NOT c1)"
proof -
  let ?acc = "foldl (spec_accumulate tbl) 0xFFFFFFFF d1"
  have "calculate_crc32 tbl d1 (length d1) = Inr (NOT ?acc)"
    using assms by (simp add: calculate_crc32_fold spec_checksum_def)
  moreover have "calculate_crc32 tbl (d1 @ d2) (length (d1 @ d2)) =
      Inr (NOT (foldl (spec_accumulate tbl) (NOT (NOT ?acc)) d2))"
    using assms by (simp add: calculate_crc32_fold spec_checksum_def)
  moreover have "crc32_loop tbl (d1 @ d2) (length (d1 @ d2)) 0 0xFFFFFFFF =
      crc32_loop tbl d2 (length d2) 0 (NOT (NOT ?acc))"
    using assms by (simp add: crc32_loop_fold)
  ultimately show ?thesis by blast
qed

theorem calculate_crc32_append_witness:
  "length (map (\<lambda>k. init_inner 0 (of_nat k) :: u32) [0..<256]) = 256
   \<and> (\<exists>c1. calculate_crc32 (map (\<lambda>k. init_inner 0 (of_nat k)) [0..<256]) [0x61]
             (length [0x61 :: u8]) = Inr c1
        \<and> c1 = 0xE8B7BE43
        \<and> calculate_crc32 (map (\<lambda>k. init_inner 0 (of_nat k)) [0..<256]) ([0x61] @ [0x62])
             (length ([0x61 :: u8] @ [0x62])) =
            Inr (NOT (foldl (spec_accumulate (map (\<lambda>k. init_inner 0 (of_nat k)) [0..<256]))
                       (NOT c1) [0x62]))
        \<and> NOT (foldl (spec_accumulate (map (\<lambda>k. init_inner 0 (of_nat k)) [0..<256]))
                  (NOT c1) [0x62]) = 0x9E83486D)"
proof -
  let ?t = "map (\<lambda>k. init_inner 0 (of_nat k) :: u32) [0..<256]"
  have len: "length ?t = 256" by simp
  from calculate_crc32_append [OF len, of "[0x61]" "[0x62]"]
  obtain c1 where c1: "calculate_crc32 ?t [0x61] (length [0x61 :: u8]) = Inr c1"
    and c12: "calculate_crc32 ?t ([0x61] @ [0x62]) (length ([0x61 :: u8] @ [0x62])) =
        Inr (NOT (foldl (spec_accumulate ?t) (NOT c1) [0x62]))"
    by blast
  have "calculate_crc32 ?t [0x61] (length [0x61 :: u8]) = Inr 0xE8B7BE43"
    by (simp add: calculate_crc32_fold spec_checksum_def ab_step_1)
  with c1 have v1: "c1 = 0xE8B7BE43" by simp
  then have "NOT c1 = 0x174841BC" by simp
  then have "NOT (foldl (spec_accumulate ?t) (NOT c1) [0x62]) = 0x9E83486D"
    by (simp add: ab_step_2)
  with len c1 c12 v1 show ?thesis by blast
qed

end
